theory Spec2Isabelle
  imports Main "HOL-Library.AList" "HOL-Library.Char_ord" "HOL-Library.List_Lexorder"
begin

section \<open>Data model of build\_pack.py\<close>

text \<open>
  Python \<open>bytes\<close> and \<open>str\<close> values are both lists of characters; the tag of
  \<open>source\<close> below keeps the distinction that \<open>isinstance(source, bytes)\<close> tests.
\<close>

type_synonym bytes = "char list"

datatype source = Path string | Buf bytes

datatype error = ValueError | ArchiveError | OSError | ZeroDivisionError | NameError

text \<open>
  The file system as the \<open>os\<close> calls of the program observe it: what a path names
  after the operating system has resolved it. Path strings are the names; two
  different strings are two different entries.
\<close>

datatype node = File bytes | Dir | Other

type_synonym filesys = "(string \<times> node) list"

text \<open>What the program prints, one constructor per \<open>print\<close> call of the source.\<close>

datatype msg =
    WhatIsIt
  | ErrDestination string
  | ErrSmdb
  | MsgDone
  | SmdbLists nat
  | FoundFiles nat nat

text \<open>
  The globals \<open>DB\<close> and \<open>FOUND\<close>, the file system and the two output streams.
  \<open>DB\<close> is an insertion-ordered dictionary: an association list with distinct keys.
\<close>

record state =
  DB :: "(bytes \<times> string) list"
  FOUND :: "bytes set"
  fs :: filesys
  stdout :: "msg list"
  stderr :: "msg list"

definition initial :: "filesys \<Rightarrow> state" where
  "initial f = \<lparr>DB = [], FOUND = {}, fs = f, stdout = [], stderr = []\<rparr>"

text \<open>
  The libraries the program calls and this development does not look into:
  \<open>sha256\<close> is the digest hashlib computes for a whole message;
  \<open>decode\<close> is the libarchive reader on a byte content, giving the entries it yields
  (each entry's blocks already joined) and whether the iteration ended normally
  (\<open>False\<close>: it raised \<open>ArchiveError\<close> or \<open>ValueError\<close>, at once or after some entries);
  \<open>pmatch pat p\<close> is glob's match of a path \<open>p\<close> against a directory pattern \<open>pat\<close>
  that has wildcard characters.
\<close>

record lib =
  sha256 :: "bytes \<Rightarrow> bytes"
  decode :: "bytes \<Rightarrow> bytes list \<times> bool"
  pmatch :: "string \<Rightarrow> string \<Rightarrow> bool"

text \<open>How a call ends: it returns, or an exception leaves it; the state is kept either way.\<close>

datatype outcome = Done state | Raised error state

fun state_of :: "outcome \<Rightarrow> state" where
  "state_of (Done s) = s"
| "state_of (Raised e s) = s"

section \<open>Paths\<close>

definition sep :: char where
  "sep = CHR ''/''"

text \<open>\<open>os.path.join(a, b)\<close> of posixpath, for two arguments.\<close>

definition path_join :: "string \<Rightarrow> string \<Rightarrow> string" where
  "path_join a b =
     (if b \<noteq> [] \<and> hd b = sep then b
      else if a = [] \<or> last a = sep then a @ b
      else a @ [sep] @ b)"

text \<open>
  A path without its trailing separators, unless it consists of separators only.
  \<open>os.path.split(p)\<close> cuts \<open>p\<close> after its last separator; \<open>dirname\<close> is the head of the
  cut in that form, \<open>basename\<close> is the tail.
\<close>

definition all_seps :: "string \<Rightarrow> bool" where
  "all_seps s = list_all (\<lambda>c. c = sep) s"

definition norm :: "string \<Rightarrow> string" where
  "norm p = (if all_seps p then p else rev (dropWhile (\<lambda>c. c = sep) (rev p)))"

definition split_head :: "string \<Rightarrow> string" where
  "split_head p = rev (dropWhile (\<lambda>c. c \<noteq> sep) (rev p))"

definition dirname :: "string \<Rightarrow> string" where
  "dirname p = norm (split_head p)"

definition basename :: "string \<Rightarrow> string" where
  "basename p = rev (takeWhile (\<lambda>c. c \<noteq> sep) (rev p))"

section \<open>File system calls\<close>

text \<open>
  What \<open>os.stat\<close> finds at a path: the root is a directory, and a path that ends in
  a separator names a directory or nothing.
\<close>

definition is_root :: "string \<Rightarrow> bool" where
  "is_root p = (p \<noteq> [] \<and> all_seps p)"

definition node_at :: "filesys \<Rightarrow> string \<Rightarrow> node option" where
  "node_at f p =
     (if is_root p then Some Dir
      else if norm p = p then map_of f p
      else (case map_of f (norm p) of Some Dir \<Rightarrow> Some Dir | _ \<Rightarrow> None))"

definition isdir :: "filesys \<Rightarrow> string \<Rightarrow> bool" where
  "isdir f p = (node_at f p = Some Dir)"

definition isfile :: "filesys \<Rightarrow> string \<Rightarrow> bool" where
  "isfile f p = (case map_of f p of Some (File b) \<Rightarrow> True | _ \<Rightarrow> False)"

definition exists_path :: "filesys \<Rightarrow> string \<Rightarrow> bool" where
  "exists_path f p = (node_at f p \<noteq> None)"

text \<open>
  \<open>pathlib.Path(p).mkdir(parents=True, exist_ok=True)\<close>, for a path without trailing
  separators, as \<open>dirname\<close> gives it and pathlib makes it. The anchor (the working directory, the empty path, or the root) is its own
  parent and always is a directory. An existing directory is accepted, an existing
  entry of another kind raises, a missing parent is made first.
\<close>

function mkdir_parents :: "string \<Rightarrow> filesys \<Rightarrow> error + filesys" where
  "mkdir_parents p f =
     (if dirname p = p then Inr f
      else case map_of f p of
          Some Dir \<Rightarrow> Inr f
        | Some _ \<Rightarrow> Inl OSError
        | None \<Rightarrow>
            (case mkdir_parents (dirname p) f of
               Inl e \<Rightarrow> Inl e
             | Inr f' \<Rightarrow> Inr (AList.update p Dir f')))"
  by pat_completeness auto

lemma rstrip_prefix: "\<exists>s. h = rev (dropWhile P (rev h)) @ s"
proof -
  have "rev h = takeWhile P (rev h) @ dropWhile P (rev h)" by simp
  then have "h = rev (dropWhile P (rev h)) @ rev (takeWhile P (rev h))"
    by (metis rev_append rev_rev_ident)
  then show ?thesis by blast
qed

lemma norm_prefix: "\<exists>s. h = norm h @ s"
  using rstrip_prefix [of h "\<lambda>c. c = sep"] by (auto simp: norm_def)

lemma dirname_prefix: "\<exists>s. p = dirname p @ s"
proof -
  obtain s1 where s1: "p = split_head p @ s1"
    using rstrip_prefix [of p "\<lambda>c. c \<noteq> sep"] unfolding split_head_def by blast
  obtain s2 where s2: "split_head p = norm (split_head p) @ s2"
    using norm_prefix by blast
  have "p = dirname p @ (s2 @ s1)"
    unfolding dirname_def using s1 s2 by (metis append.assoc)
  then show ?thesis by blast
qed

lemma dirname_shorter: "dirname p \<noteq> p \<Longrightarrow> length (dirname p) < length p"
proof -
  assume ne: "dirname p \<noteq> p"
  obtain s where s: "p = dirname p @ s" using dirname_prefix by blast
  have "s \<noteq> []" using ne s by auto
  then have "length (dirname p) < length (dirname p @ s)" by simp
  then show ?thesis using s by simp
qed

termination mkdir_parents
  by (relation "measure (\<lambda>(p, f). length p)") (auto simp: dirname_shorter)

declare mkdir_parents.simps [simp del]

section \<open>Hashing\<close>

text \<open>
  A hashlib object is the message fed to it so far: \<open>update\<close> appends, and \<open>digest\<close>
  is the SHA-256 of the whole message (hashlib: repeated calls of \<open>update\<close> are
  equivalent to one call with the concatenation of the arguments).
\<close>

definition hashlib_new :: bytes where
  "hashlib_new = []"

definition hashlib_update :: "bytes \<Rightarrow> bytes \<Rightarrow> bytes" where
  "hashlib_update h chunk = h @ chunk"

definition hashlib_digest :: "lib \<Rightarrow> bytes \<Rightarrow> bytes" where
  "hashlib_digest L h = sha256 L h"

text \<open>
  The loop \<open>for chunk in iter(lambda: f.read(4096), b'')\<close> of \<open>hash_file\<close>: \<open>rest\<close> is
  what the open file still has to give; the loop ends at the first empty read.
\<close>

function hash_loop :: "bytes \<Rightarrow> bytes \<Rightarrow> bytes" where
  "hash_loop h rest =
     (if take 4096 rest = [] then h
      else hash_loop (hashlib_update h (take 4096 rest)) (drop 4096 rest))"
  by pat_completeness auto
termination
  by (relation "measure (\<lambda>(h, rest). length rest)") auto

declare hash_loop.simps [simp del]

definition hash_file :: "lib \<Rightarrow> filesys \<Rightarrow> string \<Rightarrow> error + bytes" where
  "hash_file L f path =
     (case map_of f path of
        Some (File content) \<Rightarrow> Inr (hashlib_digest L (hash_loop hashlib_new content))
      | _ \<Rightarrow> Inl OSError)"

definition hash_mem :: "lib \<Rightarrow> bytes \<Rightarrow> bytes" where
  "hash_mem L buf = hashlib_digest L (hashlib_update hashlib_new buf)"

section \<open>The manifest: load\_smdb\<close>

text \<open>\<open>str.strip()\<close>: the white space of Python for code points below 256.\<close>

definition is_space :: "char \<Rightarrow> bool" where
  "is_space c =
     (let n = (of_char c :: nat)
      in (9 \<le> n \<and> n \<le> 13) \<or> (28 \<le> n \<and> n \<le> 32) \<or> n = 133 \<or> n = 160)"

definition strip :: "string \<Rightarrow> string" where
  "strip s = rev (dropWhile is_space (rev (dropWhile is_space s)))"

text \<open>\<open>s.split('\t', n)\<close>: at most \<open>n\<close> cuts, at the first \<open>n\<close> tabs.\<close>

definition tab :: char where
  "tab = CHR 0x09"

fun split_tab :: "nat \<Rightarrow> string \<Rightarrow> string list" where
  "split_tab 0 s = [s]"
| "split_tab (Suc n) s =
     (if tab \<in> set s
      then takeWhile (\<lambda>c. c \<noteq> tab) s # split_tab n (tl (dropWhile (\<lambda>c. c \<noteq> tab) s))
      else [s])"

text \<open>
  \<open>bytearray.fromhex\<close> (CPython 3.7 and later): ASCII white space is skipped before
  each byte, a byte is two hexadecimal digits, anything else raises \<open>ValueError\<close>
  (\<open>None\<close> here).
\<close>

definition hex_digit :: "char \<Rightarrow> nat option" where
  "hex_digit c =
     (let n = (of_char c :: nat)
      in if 48 \<le> n \<and> n \<le> 57 then Some (n - 48)
         else if 97 \<le> n \<and> n \<le> 102 then Some (n - 87)
         else if 65 \<le> n \<and> n \<le> 70 then Some (n - 55)
         else None)"

definition ascii_space :: "char \<Rightarrow> bool" where
  "ascii_space c = (let n = (of_char c :: nat) in (9 \<le> n \<and> n \<le> 13) \<or> n = 32)"

function fromhex :: "string \<Rightarrow> bytes option" where
  "fromhex s =
     (case dropWhile ascii_space s of
        [] \<Rightarrow> Some []
      | [c] \<Rightarrow> None
      | c1 # c2 # rest \<Rightarrow>
          (case (hex_digit c1, hex_digit c2) of
             (Some hi, Some lo) \<Rightarrow>
               (case fromhex rest of
                  None \<Rightarrow> None
                | Some bs \<Rightarrow> Some (char_of (16 * hi + lo) # bs))
           | _ \<Rightarrow> None))"
  by pat_completeness auto

lemma dropWhile_tail_shorter:
  "dropWhile P s = c1 # c2 # rest \<Longrightarrow> length rest < length s"
proof -
  assume a: "dropWhile P s = c1 # c2 # rest"
  have "length (dropWhile P s) \<le> length s" by (rule length_dropWhile_le)
  then show ?thesis using a by simp
qed

termination fromhex
  by (relation "measure length") (auto simp: dropWhile_tail_shorter)

declare fromhex.simps [simp del]

text \<open>
  One iteration of the loop of \<open>load_smdb\<close>, up to the key and the file name: the
  line is stripped and cut into exactly five fields (fewer cannot be unpacked:
  \<open>ValueError\<close>), the first field has 64 characters and is hexadecimal.
\<close>

definition parse_line :: "string \<Rightarrow> error + (bytes \<times> string)" where
  "parse_line line =
     (case split_tab 4 (strip line) of
        [sha, filename, sha1, md5, crc] \<Rightarrow>
          if length sha \<noteq> 64 then Inl ValueError
          else (case fromhex sha of
                  None \<Rightarrow> Inl ValueError
                | Some key \<Rightarrow> Inr (key, filename))
      | _ \<Rightarrow> Inl ValueError)"

text \<open>
  \<open>lines.sort(key=lambda l: l[65:], reverse=True)\<close>: Python reverses the list, sorts
  it stably in ascending order of the key and reverses the result, so the keys
  descend and lines of equal key keep the order of the file.
\<close>

definition sort_lines :: "string list \<Rightarrow> string list" where
  "sort_lines lines = rev (sort_key (drop 65) (rev lines))"

fun load_lines :: "string list \<Rightarrow> state \<Rightarrow> outcome" where
  "load_lines [] st = Done st"
| "load_lines (line # rest) st =
     (case parse_line line of
        Inl e \<Rightarrow> Raised e st
      | Inr (key, filename) \<Rightarrow>
          load_lines rest (st\<lparr>DB := AList.update key filename (DB st)\<rparr>))"

text \<open>
  \<open>open(smdb, 'r')\<close> and \<open>readlines()\<close>: text mode turns \<open>\r\n\<close> and \<open>\r\<close> into
  \<open>\n\<close>, and every line keeps its \<open>\n\<close>. The bytes of the file are taken as the
  characters of the text.
\<close>

definition LF :: char where
  "LF = CHR 0x0A"

definition CR :: char where
  "CR = CHR 0x0D"

function universal_newlines :: "string \<Rightarrow> string" where
  "universal_newlines [] = []"
| "universal_newlines (c # cs) =
     (if c = CR
      then LF # universal_newlines (if cs \<noteq> [] \<and> hd cs = LF then tl cs else cs)
      else c # universal_newlines cs)"
  by pat_completeness auto
termination
  by (relation "measure length") auto

function readlines :: "string \<Rightarrow> string list" where
  "readlines s =
     (if s = [] then []
      else case dropWhile (\<lambda>c. c \<noteq> LF) s of
             [] \<Rightarrow> [s]
           | nl # rest \<Rightarrow> (takeWhile (\<lambda>c. c \<noteq> LF) s @ [nl]) # readlines rest)"
  by pat_completeness auto

lemma dropWhile_rest_shorter: "dropWhile P s = c # rest \<Longrightarrow> length rest < length s"
proof -
  assume a: "dropWhile P s = c # rest"
  have "length (dropWhile P s) \<le> length s" by (rule length_dropWhile_le)
  then show ?thesis using a by simp
qed

termination readlines
  by (relation "measure length") (auto simp: dropWhile_rest_shorter)

declare readlines.simps [simp del]

definition load_smdb :: "string \<Rightarrow> state \<Rightarrow> outcome" where
  "load_smdb smdb st =
     (let st0 = st\<lparr>DB := []\<rparr>
      in case map_of (fs st0) smdb of
           Some (File content) \<Rightarrow>
             load_lines (sort_lines (readlines (universal_newlines content))) st0
         | _ \<Rightarrow> Raised OSError st0)"

section \<open>Directory listing: glob\<close>

definition has_magic :: "string \<Rightarrow> bool" where
  "has_magic s = list_ex (\<lambda>c. c = CHR ''*'' \<or> c = CHR ''?'' \<or> c = CHR ''['') s"

definition ishidden :: "string \<Rightarrow> bool" where
  "ishidden name = (name \<noteq> [] \<and> hd name = CHR ''.'')"

text \<open>The names in a directory; listing anything else fails, and glob takes that as empty.\<close>

definition listdir :: "filesys \<Rightarrow> string \<Rightarrow> string list" where
  "listdir f d =
     (if isdir f d \<or> dirname d = d
      then [basename k. k \<leftarrow> remdups (map fst f), basename k \<noteq> [] \<and> k = path_join d (basename k)]
      else [])"

text \<open>
  \<open>glob.glob(os.path.join(source, '*'))\<close>. The pattern is split into its directory
  part and \<open>*\<close>. A directory part without wildcard characters is taken literally;
  one with wildcard characters is itself a pattern, and glob lists every existing
  path that matches it. In each such directory \<open>*\<close> matches every name that does not
  begin with a dot.
\<close>

definition glob_star :: "lib \<Rightarrow> filesys \<Rightarrow> string \<Rightarrow> string list" where
  "glob_star L f source =
     (let d = dirname (path_join source ''*'');
          dirs = (if has_magic d then [k \<leftarrow> remdups (map fst f). pmatch L d k] else [d])
      in concat (map (\<lambda>d'. [path_join d' name. name \<leftarrow> listdir f d', \<not> ishidden name]) dirs))"

section \<open>Materializing a match: write\_file\<close>

text \<open>\<open>shutil.copyfile(src, dst)\<close>, called only where \<open>dst\<close> does not exist.\<close>

definition copyfile :: "string \<Rightarrow> string \<Rightarrow> state \<Rightarrow> outcome" where
  "copyfile src dst st =
     (case map_of (fs st) src of
        Some (File content) \<Rightarrow> Done (st\<lparr>fs := AList.update dst (File content) (fs st)\<rparr>)
      | _ \<Rightarrow> Raised OSError st)"

definition write_file :: "source \<Rightarrow> string \<Rightarrow> bytes \<Rightarrow> state \<Rightarrow> outcome" where
  "write_file src destination h st =
     (case map_of (DB st) h of
        None \<Rightarrow> Done st
      | Some filename \<Rightarrow>
          (let st1 = st\<lparr>FOUND := insert h (FOUND st)\<rparr>;
               out_path = path_join destination filename;
               out_dir = dirname out_path
           in case mkdir_parents out_dir (fs st1) of
                Inl e \<Rightarrow> Raised e st1
              | Inr f2 \<Rightarrow>
                  (let st2 = st1\<lparr>fs := f2\<rparr>
                   in if exists_path f2 out_path then Done st2
                      else (case src of
                              Buf b \<Rightarrow> Done (st2\<lparr>fs := AList.update out_path (File b) f2\<rparr>)
                            | Path p \<Rightarrow> copyfile p out_path st2))))"

section \<open>The traversal: read\_archive, read\_file, read\_dir\<close>

text \<open>The two exception classes that the \<open>except\<close> clauses of the traversal name.\<close>

definition catchable :: "error \<Rightarrow> bool" where
  "catchable e = (e = ValueError \<or> e = ArchiveError)"

text \<open>\<open>memory_reader\<close> on a buffer, \<open>file_reader\<close> on the content of a file.\<close>

definition open_reader :: "lib \<Rightarrow> state \<Rightarrow> source \<Rightarrow> bytes list \<times> bool" where
  "open_reader L st src =
     (case src of
        Buf b \<Rightarrow> decode L b
      | Path p \<Rightarrow>
          (case map_of (fs st) p of
             Some (File content) \<Rightarrow> decode L content
           | _ \<Rightarrow> ([], False)))"

text \<open>
  Archives nest without a bound that the program knows, so the traversal takes the
  depth it may still descend; \<open>None\<close> is a traversal that did not finish within it.
  \<open>read_entries\<close> is the loop \<open>for entry in i\<close> of \<open>read_archive\<close>.
\<close>

fun read_archive :: "nat \<Rightarrow> lib \<Rightarrow> source \<Rightarrow> string \<Rightarrow> state \<Rightarrow> outcome option"
  and read_entries :: "nat \<Rightarrow> lib \<Rightarrow> bytes list \<Rightarrow> string \<Rightarrow> state \<Rightarrow> outcome option"
  and read_file :: "nat \<Rightarrow> lib \<Rightarrow> source \<Rightarrow> string \<Rightarrow> state \<Rightarrow> outcome option"
where
  "read_archive 0 L src destination st = None"
| "read_archive (Suc n) L src destination st =
     (case open_reader L st src of
        (entries, ok) \<Rightarrow>
          (case read_entries n L entries destination st of
             None \<Rightarrow> None
           | Some (Done st') \<Rightarrow>
               if ok then Some (Done st') else Some (Raised ArchiveError st')
           | Some (Raised e st') \<Rightarrow> Some (Raised e st')))"
| "read_entries n L [] destination st = Some (Done st)"
| "read_entries n L (buf # rest) destination st =
     (case read_archive n L (Buf buf) destination st of
        None \<Rightarrow> None
      | Some (Done st') \<Rightarrow> read_entries n L rest destination st'
      | Some (Raised e st') \<Rightarrow>
          if catchable e
          then (case read_file n L (Buf buf) destination st' of
                  None \<Rightarrow> None
                | Some (Done st'') \<Rightarrow> read_entries n L rest destination st''
                | Some (Raised e' st'') \<Rightarrow> Some (Raised e' st''))
          else Some (Raised e st'))"
| "read_file n L (Buf b) destination st =
     Some (write_file (Buf b) destination (hash_mem L b) st)"
| "read_file n L (Path p) destination st =
     (if isfile (fs st) p then
        (case read_archive n L (Path p) destination st of
           None \<Rightarrow> None
         | Some (Done st') \<Rightarrow> Some (Done st')
         | Some (Raised e st') \<Rightarrow>
             if catchable e
             then (case hash_file L (fs st') p of
                     Inl e' \<Rightarrow> Some (Raised e' st')
                   | Inr h \<Rightarrow> Some (write_file (Path p) destination h st'))
             else Some (Raised e st'))
      else Some (Done (st\<lparr>stdout := stdout st @ [WhatIsIt]\<rparr>)))"

text \<open>\<open>read_dir_paths\<close> is the loop \<open>for path in glob.glob(...)\<close> of \<open>read_dir\<close>.\<close>

fun read_dir :: "nat \<Rightarrow> lib \<Rightarrow> string \<Rightarrow> string \<Rightarrow> state \<Rightarrow> outcome option"
  and read_dir_paths :: "nat \<Rightarrow> lib \<Rightarrow> string list \<Rightarrow> string \<Rightarrow> state \<Rightarrow> outcome option"
where
  "read_dir 0 L source destination st = None"
| "read_dir (Suc n) L source destination st =
     read_dir_paths n L (glob_star L (fs st) source) destination st"
| "read_dir_paths n L [] destination st = Some (Done st)"
| "read_dir_paths n L (path # rest) destination st =
     (if isdir (fs st) path then
        (case read_dir n L path destination st of
           None \<Rightarrow> None
         | Some (Done st') \<Rightarrow> read_dir_paths n L rest destination st'
         | Some (Raised e st') \<Rightarrow> Some (Raised e st'))
      else if isfile (fs st) path then
        (case read_file n L (Path path) destination st of
           None \<Rightarrow> None
         | Some (Done st') \<Rightarrow> read_dir_paths n L rest destination st'
         | Some (Raised e st') \<Rightarrow> Some (Raised e st'))
      else read_dir_paths n L rest destination st)"

section \<open>The run: main\<close>

text \<open>The loop \<open>for source in sources\<close> of \<open>main\<close>.\<close>

fun main_sources :: "nat \<Rightarrow> lib \<Rightarrow> string list \<Rightarrow> string \<Rightarrow> state \<Rightarrow> outcome option" where
  "main_sources n L [] destination st = Some (Done st)"
| "main_sources n L (source # rest) destination st =
     (if isdir (fs st) source then
        (case read_dir n L source destination st of
           None \<Rightarrow> None
         | Some (Done st') \<Rightarrow> main_sources n L rest destination st'
         | Some (Raised e st') \<Rightarrow> Some (Raised e st'))
      else if isfile (fs st) source then
        (case read_file n L (Path source) destination st of
           None \<Rightarrow> None
         | Some (Done st') \<Rightarrow> main_sources n L rest destination st'
         | Some (Raised e st') \<Rightarrow> Some (Raised e st'))
      else main_sources n L rest destination st)"

text \<open>
  The three \<open>print\<close> calls that end \<open>main\<close>. The last one divides by \<open>float(len(DB))\<close>
  while its argument is computed; nothing of it is printed when that raises. The
  digits of the percentage are not modelled.
\<close>

definition report :: "state \<Rightarrow> outcome" where
  "report st =
     (let st1 = st\<lparr>stdout := stdout st @ [MsgDone]\<rparr>;
          st2 = st1\<lparr>stdout := stdout st1 @ [SmdbLists (length (DB st1))]\<rparr>
      in if length (DB st2) = 0 then Raised ZeroDivisionError st2
         else Done (st2\<lparr>stdout := stdout st2 @ [FoundFiles (card (FOUND st2)) (length (DB st2))]\<rparr>))"

text \<open>
  \<open>main\<close> on the arguments after the script's name. With fewer than two arguments the
  handler of \<open>IndexError\<close> calls \<open>usage\<close>, which the module does not define.
\<close>

definition main :: "nat \<Rightarrow> lib \<Rightarrow> string list \<Rightarrow> state \<Rightarrow> outcome option" where
  "main n L args st =
     (case args of
        smdb # destination # sources \<Rightarrow>
          if \<not> isdir (fs st) destination
          then Some (Done (st\<lparr>stderr := stderr st @ [ErrDestination destination]\<rparr>))
          else (case load_smdb smdb st of
                  Raised e st1 \<Rightarrow>
                    if e = ValueError
                    then Some (Done (st1\<lparr>stderr := stderr st1 @ [ErrSmdb]\<rparr>))
                    else Some (Raised e st1)
                | Done st1 \<Rightarrow>
                    (case main_sources n L sources destination st1 of
                       None \<Rightarrow> None
                     | Some (Done st2) \<Rightarrow> Some (report st2)
                     | Some (Raised e st2) \<Rightarrow> Some (Raised e st2)))
      | _ \<Rightarrow> Some (Raised NameError st))"

section \<open>How a run changes the state\<close>

text \<open>
  What the traversal may do to the state: it leaves \<open>DB\<close> and the error stream alone,
  adds keys of \<open>DB\<close> to \<open>FOUND\<close>, adds entries to the file system and keeps the entries
  it finds there.
\<close>

definition evolves :: "state \<Rightarrow> state \<Rightarrow> bool" where
  "evolves s s' =
     (DB s' = DB s \<and> stderr s' = stderr s
      \<and> FOUND s \<subseteq> FOUND s' \<and> FOUND s' \<subseteq> FOUND s \<union> fst ` set (DB s)
      \<and> map_of (fs s) \<subseteq>\<^sub>m map_of (fs s'))"

text \<open>
  A relation between an earlier and a later state that every step of the traversal
  respects: it is reflexive and transitive, and holds across a call of \<open>write_file\<close>
  and across a \<open>print\<close>.
\<close>

definition step_closed :: "(state \<Rightarrow> state \<Rightarrow> bool) \<Rightarrow> bool" where
  "step_closed R =
     ((\<forall>s. R s s) \<and> (\<forall>a b c. R a b \<longrightarrow> R b c \<longrightarrow> R a c)
      \<and> (\<forall>src d h s. R s (state_of (write_file src d h s)))
      \<and> (\<forall>s m. R s (s\<lparr>stdout := m\<rparr>)))"

text \<open>
  Which exceptions leave the traversal. \<open>I\<close> is a property of the state that every step
  keeps, \<open>W\<close> holds of every exception that a call of \<open>write_file\<close> raises from a state
  with \<open>I\<close>.
\<close>

definition write_raises :: "(state \<Rightarrow> bool) \<Rightarrow> (error \<Rightarrow> bool) \<Rightarrow> bool" where
  "write_raises I W =
     ((\<forall>src d h s. I s \<longrightarrow> I (state_of (write_file src d h s)))
      \<and> (\<forall>src d h s e s'. I s \<longrightarrow> write_file src d h s = Raised e s' \<longrightarrow> W e)
      \<and> (\<forall>s m. I s \<longrightarrow> I (s\<lparr>stdout := m\<rparr>)))"

section \<open>Example inputs\<close>

text \<open>
  A library instance for the concrete runs below: the digest is the message reversed
  (any function will do where only equality of digests matters), the byte content
  \<open>''Z:'' @ b\<close> is an archive with the single entry \<open>b\<close>, the content \<open>''T:'' @ b\<close> is a
  truncated archive that yields \<open>b\<close> and then fails, and nothing else is an archive.
\<close>

definition example_decode :: "bytes \<Rightarrow> bytes list \<times> bool" where
  "example_decode b =
     (if take 2 b = ''Z:'' then ([drop 2 b], True)
      else if take 2 b = ''T:'' then ([drop 2 b], False)
      else ([], False))"

definition example_lib :: lib where
  "example_lib = \<lparr>sha256 = rev, decode = example_decode, pmatch = (\<lambda>pat p. False)\<rparr>"

text \<open>
  A state in which the index names \<open>g/a.rom\<close> for the hash \<open>k\<close> and the destination
  \<open>out\<close> already holds a file at that path.
\<close>

definition example_state :: state where
  "example_state =
     \<lparr>DB = [(''k'', ''g/a.rom'')], FOUND = {},
      fs = [(''out'', Dir), (''out/g'', Dir), (''out/g/a.rom'', File ''old'')],
      stdout = [], stderr = []\<rparr>"


text \<open>
  A manifest of one record: the hash is 32 bytes \<open>0\<close> (written as 64 hexadecimal
  digits), the path is \<open>g/a.rom\<close>. In \<open>blocked_fs\<close> the source \<open>rom\<close> has that hash
  under \<open>example_lib\<close>, and the destination \<open>out\<close> holds a regular file \<open>g\<close> where the
  directory of the output path would have to be made. \<open>blocked_loaded\<close> is the state
  after \<open>load_smdb\<close>.
\<close>

definition zeros :: bytes where
  "zeros = ''00000000000000000000000000000000''"

definition manifest_line :: string where
  "manifest_line =
     ''3030303030303030303030303030303030303030303030303030303030303030''
     @ [tab] @ ''g/a.rom'' @ [tab] @ ''s'' @ [tab] @ ''m'' @ [tab] @ ''c'' @ [LF]"

definition blocked_fs :: filesys where
  "blocked_fs =
     [(''db'', File manifest_line), (''out'', Dir), (''out/g'', File ''x''),
      (''rom'', File zeros)]"

definition blocked_loaded :: state where
  "blocked_loaded = (initial blocked_fs)\<lparr>DB := [(zeros, ''g/a.rom'')]\<rparr>"

section \<open>Facts about paths\<close>

lemma all_seps_snoc: "all_seps (xs @ [c]) \<longleftrightarrow> all_seps xs \<and> c = sep"
  by (auto simp: all_seps_def)

lemma norm_length: "length (norm p) \<le> length p"
proof -
  obtain s where "p = norm p @ s" using norm_prefix by blast
  then have "length p = length (norm p) + length s" by (metis length_append)
  then show ?thesis by simp
qed

lemma norm_snoc_sep: "\<not> all_seps xs \<Longrightarrow> norm (xs @ [sep]) = norm xs"
  by (simp add: norm_def all_seps_snoc)

lemma norm_snoc_other: "c \<noteq> sep \<Longrightarrow> norm (xs @ [c]) = xs @ [c]"
  by (simp add: norm_def all_seps_snoc)

lemma norm_fixed_iff: "norm p = p \<longleftrightarrow> all_seps p \<or> last p \<noteq> sep"
proof (cases p rule: rev_cases)
  case Nil
  then show ?thesis by (simp add: norm_def all_seps_def)
next
  case (snoc xs c)
  show ?thesis
  proof (cases "c = sep")
    case False
    then show ?thesis using snoc by (simp add: norm_snoc_other)
  next
    case True
    show ?thesis
    proof (cases "all_seps xs")
      case a: True
      then show ?thesis using snoc True by (simp add: norm_def all_seps_snoc)
    next
      case False
      then have "norm p = norm xs" using snoc True by (simp add: norm_snoc_sep)
      moreover have "length (norm xs) \<le> length xs" by (rule norm_length)
      ultimately have "length (norm p) < length p" using snoc by simp
      then have "norm p \<noteq> p" by auto
      moreover have "\<not> all_seps p" using snoc False by (simp add: all_seps_snoc)
      moreover have "last p = sep" using snoc True by simp
      ultimately show ?thesis by blast
    qed
  qed
qed

lemma norm_idem: "norm (norm p) = norm p"
proof (induction p rule: rev_induct)
  case Nil
  then show ?case by (simp add: norm_def)
next
  case (snoc c xs)
  show ?case
  proof (cases "c = sep")
    case False
    then show ?thesis by (simp add: norm_snoc_other)
  next
    case True
    show ?thesis
    proof (cases "all_seps xs")
      case a: True
      then show ?thesis using True by (simp add: norm_def all_seps_snoc)
    next
      case False
      then show ?thesis using True snoc by (simp add: norm_snoc_sep)
    qed
  qed
qed

lemma norm_dirname: "norm (dirname p) = dirname p"
  by (simp add: dirname_def norm_idem)

lemma split_head_snoc:
  "split_head (xs @ [c]) = (if c = sep then xs @ [c] else split_head xs)"
proof (cases "c = sep")
  case True
  then show ?thesis unfolding split_head_def by simp
next
  case False
  then show ?thesis unfolding split_head_def by simp
qed

lemma split_head_length: "length (split_head p) \<le> length p"
  by (simp add: split_head_def length_dropWhile_le [of _ "rev p", simplified])

lemma dirname_length: "length (dirname p) \<le> length p"
  using norm_length [of "split_head p"] split_head_length [of p] by (simp add: dirname_def)

lemma dirname_trailing: "norm p \<noteq> p \<Longrightarrow> dirname p = norm p"
proof -
  assume a: "norm p \<noteq> p"
  then have "\<not> all_seps p" and l: "last p = sep" using norm_fixed_iff by auto
  then have "p \<noteq> []" by (auto simp: all_seps_def)
  then obtain xs where "p = xs @ [sep]" using l by (metis append_butlast_last_id)
  then have "split_head p = p" by (simp add: split_head_snoc)
  then show ?thesis by (simp add: dirname_def)
qed

lemma dirname_snoc_other: "c \<noteq> sep \<Longrightarrow> dirname (xs @ [c]) \<noteq> xs @ [c]"
proof -
  assume c: "c \<noteq> sep"
  have "dirname (xs @ [c]) = dirname xs" using c by (simp add: dirname_def split_head_snoc)
  moreover have "length (dirname xs) \<le> length xs" by (rule dirname_length)
  ultimately have "length (dirname (xs @ [c])) < length (xs @ [c])" by simp
  then show ?thesis by auto
qed

lemma anchor_iff: "dirname p = p \<longleftrightarrow> p = [] \<or> is_root p"
proof (cases p rule: rev_cases)
  case Nil
  then show ?thesis by (simp add: dirname_def split_head_def norm_def all_seps_def)
next
  case (snoc xs c)
  show ?thesis
  proof (cases "c = sep")
    case False
    then show ?thesis using snoc dirname_snoc_other [OF False, of xs]
      by (simp add: is_root_def all_seps_snoc)
  next
    case True
    then have "dirname p = norm p" using snoc by (simp add: dirname_def split_head_snoc)
    then show ?thesis using snoc True norm_fixed_iff [of p] by (auto simp: is_root_def)
  qed
qed

lemma norm_not_all_seps: "\<not> all_seps p \<Longrightarrow> \<not> all_seps (norm p)"
proof (induction p rule: rev_induct)
  case Nil
  then show ?case by (simp add: all_seps_def)
next
  case (snoc c xs)
  show ?case
  proof (cases "c = sep")
    case False
    then show ?thesis by (simp add: norm_snoc_other all_seps_snoc)
  next
    case True
    then have "\<not> all_seps xs" using snoc.prems by (simp add: all_seps_snoc)
    then show ?thesis using True snoc.IH by (simp add: norm_snoc_sep)
  qed
qed

lemma dirname_norm_differs: "norm p \<noteq> p \<Longrightarrow> dirname (norm p) \<noteq> norm p"
proof -
  assume a: "norm p \<noteq> p"
  then have na: "\<not> all_seps p" using norm_fixed_iff by auto
  have "norm (norm p) = norm p" by (rule norm_idem)
  then have "all_seps (norm p) \<or> last (norm p) \<noteq> sep" using norm_fixed_iff by blast
  moreover have nn: "\<not> all_seps (norm p)" using norm_not_all_seps [OF na] .
  ultimately have l: "last (norm p) \<noteq> sep" by simp
  have "norm p \<noteq> []" using nn by (auto simp: all_seps_def)
  then obtain ys where ys: "norm p = ys @ [last (norm p)]"
    by (metis append_butlast_last_id)
  have "dirname (ys @ [last (norm p)]) \<noteq> ys @ [last (norm p)]"
    using l by (rule dirname_snoc_other)
  then show ?thesis by (subst (1 2) ys)
qed

lemma star_not_sep: "CHR ''*'' \<noteq> sep"
  by (simp add: sep_def)

lemma glob_dirname: "dirname (path_join s ''*'') = norm s"
proof (cases "s = [] \<or> last s = sep")
  case True
  then have j: "path_join s ''*'' = s @ [CHR ''*'']" by (simp add: path_join_def sep_def)
  have "split_head s = s"
  proof (cases s rule: rev_cases)
    case Nil
    then show ?thesis by (simp add: split_head_def)
  next
    case (snoc xs c)
    then show ?thesis using True by (simp add: split_head_snoc)
  qed
  then have "split_head (s @ [CHR ''*'']) = s"
    using star_not_sep by (simp add: split_head_snoc)
  then show ?thesis unfolding j by (simp add: dirname_def)
next
  case False
  then have j: "path_join s ''*'' = (s @ [sep]) @ [CHR ''*'']" by (simp add: path_join_def sep_def)
  have "\<not> all_seps s" using False by (cases s rule: rev_cases) (auto simp: all_seps_snoc)
  then have n: "norm (s @ [sep]) = norm s" by (rule norm_snoc_sep)
  have "split_head ((s @ [sep]) @ [CHR ''*'']) = split_head (s @ [sep])"
    using star_not_sep by (simp only: split_head_snoc if_False)
  also have "\<dots> = s @ [sep]" by (simp add: split_head_snoc)
  finally have "split_head ((s @ [sep]) @ [CHR ''*'']) = s @ [sep]" .
  then show ?thesis unfolding j dirname_def using n by simp
qed

section \<open>Frame lemmas\<close>

lemma evolves_refl: "evolves s s"
  by (simp add: evolves_def)

lemma evolves_trans: "evolves a b \<Longrightarrow> evolves b c \<Longrightarrow> evolves a c"
  unfolding evolves_def by (auto intro: map_le_trans)

lemma evolves_stdout: "evolves s (s\<lparr>stdout := m\<rparr>)"
  by (simp add: evolves_def)

lemma mkdir_parents_grows: "mkdir_parents p f = Inr f' \<Longrightarrow> map_of f \<subseteq>\<^sub>m map_of f'"
proof (induction p f arbitrary: f' rule: mkdir_parents.induct)
  case (1 p f)
  show ?case
  proof (cases "dirname p = p")
    case True
    then show ?thesis using "1.prems" by (simp add: mkdir_parents.simps [of p f])
  next
    case False
    show ?thesis
    proof (cases "map_of f p")
      case None
      then obtain g where g: "mkdir_parents (dirname p) f = Inr g" and f': "f' = AList.update p Dir g"
        using "1.prems" False by (auto simp: mkdir_parents.simps [of p f] split: sum.splits)
      have "map_of f \<subseteq>\<^sub>m map_of g" using "1.IH" [OF False None g] .
      then show ?thesis using None f'
        by (auto simp: map_le_def update_conv' dom_def)
    next
      case (Some a)
      then show ?thesis using "1.prems" False
        by (cases a) (auto simp: mkdir_parents.simps [of p f])
    qed
  qed
qed

lemma update_fresh_grows: "map_of f p = None \<Longrightarrow> map_of f \<subseteq>\<^sub>m map_of (AList.update p v f)"
  by (auto simp: map_le_def update_conv' dom_def)

lemma mkdir_parents_fixed:
  "dirname p = p \<or> map_of f p = Some Dir \<Longrightarrow> mkdir_parents p f = Inr f"
  by (auto simp: mkdir_parents.simps [of p f])

lemma mkdir_parents_made:
  "mkdir_parents p f = Inr g \<Longrightarrow> dirname p = p \<or> map_of g p = Some Dir"
proof (cases "dirname p = p")
  case True
  then show ?thesis by simp
next
  case False
  assume a: "mkdir_parents p f = Inr g"
  show ?thesis
  proof (cases "map_of f p")
    case None
    then obtain g' where "g = AList.update p Dir g'"
      using a False by (auto simp: mkdir_parents.simps [of p f] split: sum.splits)
    then show ?thesis by (simp add: update_conv')
  next
    case (Some n)
    then show ?thesis using a False
      by (cases n) (auto simp: mkdir_parents.simps [of p f])
  qed
qed

lemma mkdir_parents_error: "mkdir_parents p f = Inl e \<Longrightarrow> e = OSError"
proof (induction p f arbitrary: e rule: mkdir_parents.induct)
  case (1 p f)
  show ?case
  proof (cases "dirname p = p")
    case True
    then show ?thesis using "1.prems" by (simp add: mkdir_parents.simps [of p f])
  next
    case False
    show ?thesis
    proof (cases "map_of f p")
      case None
      show ?thesis
      proof (cases "mkdir_parents (dirname p) f")
        case (Inl e')
        then have "e' = OSError" using "1.IH" [OF False None Inl] by simp
        then show ?thesis using "1.prems" False None Inl by (simp add: mkdir_parents.simps [of p f])
      next
        case (Inr g)
        then show ?thesis using "1.prems" False None by (simp add: mkdir_parents.simps [of p f])
      qed
    next
      case (Some n)
      then show ?thesis using "1.prems" False
        by (cases n) (auto simp: mkdir_parents.simps [of p f])
    qed
  qed
qed

text \<open>A path that does not exist although its directory was made has no entry.\<close>

lemma absent_after_mkdir:
  assumes "mkdir_parents (dirname p) f = Inr g" and "\<not> exists_path g p"
  shows "map_of g p = None"
proof (cases "norm p = p")
  case True
  then show ?thesis using assms(2) by (auto simp: exists_path_def node_at_def split: if_splits)
next
  case False
  have d: "dirname p = norm p" using dirname_trailing [OF False] .
  have "dirname (norm p) \<noteq> norm p" using dirname_norm_differs [OF False] .
  then have "map_of g (norm p) = Some Dir" using mkdir_parents_made [OF assms(1)] d by simp
  then have "exists_path g p" using False by (simp add: exists_path_def node_at_def)
  then show ?thesis using assms(2) by simp
qed

text \<open>The content a source gives when it is written out.\<close>

lemma write_file_absent: "map_of (DB st) h = None \<Longrightarrow> write_file src d h st = Done st"
  by (simp add: write_file_def)

lemma write_file_mkdir_fails:
  "map_of (DB st) h = Some name \<Longrightarrow> mkdir_parents (dirname (path_join d name)) (fs st) = Inl e
   \<Longrightarrow> write_file src d h st = Raised e (st\<lparr>FOUND := insert h (FOUND st)\<rparr>)"
  by (simp add: write_file_def Let_def)

lemma write_file_exists:
  "map_of (DB st) h = Some name \<Longrightarrow> mkdir_parents (dirname (path_join d name)) (fs st) = Inr f2
   \<Longrightarrow> exists_path f2 (path_join d name)
   \<Longrightarrow> write_file src d h st = Done (st\<lparr>FOUND := insert h (FOUND st), fs := f2\<rparr>)"
  by (simp add: write_file_def Let_def)

lemma write_file_buf:
  "map_of (DB st) h = Some name \<Longrightarrow> mkdir_parents (dirname (path_join d name)) (fs st) = Inr f2
   \<Longrightarrow> \<not> exists_path f2 (path_join d name)
   \<Longrightarrow> write_file (Buf b) d h st
       = Done (st\<lparr>FOUND := insert h (FOUND st), fs := AList.update (path_join d name) (File b) f2\<rparr>)"
  by (simp add: write_file_def Let_def)

lemma write_file_copy:
  "map_of (DB st) h = Some name \<Longrightarrow> mkdir_parents (dirname (path_join d name)) (fs st) = Inr f2
   \<Longrightarrow> \<not> exists_path f2 (path_join d name) \<Longrightarrow> map_of f2 q = Some (File b)
   \<Longrightarrow> write_file (Path q) d h st
       = Done (st\<lparr>FOUND := insert h (FOUND st), fs := AList.update (path_join d name) (File b) f2\<rparr>)"
  by (simp add: write_file_def Let_def copyfile_def)

lemma write_file_copy_fails:
  "map_of (DB st) h = Some name \<Longrightarrow> mkdir_parents (dirname (path_join d name)) (fs st) = Inr f2
   \<Longrightarrow> \<not> exists_path f2 (path_join d name) \<Longrightarrow> \<not> isfile f2 q
   \<Longrightarrow> write_file (Path q) d h st = Raised OSError (st\<lparr>FOUND := insert h (FOUND st), fs := f2\<rparr>)"
  by (auto simp: write_file_def Let_def copyfile_def isfile_def split: option.splits node.splits)

text \<open>Every way a call of \<open>write_file\<close> can go, as one case rule.\<close>

lemma write_file_cases [case_names absent mkdir_fails exists_already written copy_fails]:
  assumes "map_of (DB st) h = None \<Longrightarrow> write_file src d h st = Done st \<Longrightarrow> P"
    and "\<And>name e. map_of (DB st) h = Some name
           \<Longrightarrow> mkdir_parents (dirname (path_join d name)) (fs st) = Inl e
           \<Longrightarrow> write_file src d h st = Raised e (st\<lparr>FOUND := insert h (FOUND st)\<rparr>) \<Longrightarrow> P"
    and "\<And>name f2. map_of (DB st) h = Some name
           \<Longrightarrow> mkdir_parents (dirname (path_join d name)) (fs st) = Inr f2
           \<Longrightarrow> exists_path f2 (path_join d name)
           \<Longrightarrow> write_file src d h st = Done (st\<lparr>FOUND := insert h (FOUND st), fs := f2\<rparr>) \<Longrightarrow> P"
    and "\<And>name f2 b. map_of (DB st) h = Some name
           \<Longrightarrow> mkdir_parents (dirname (path_join d name)) (fs st) = Inr f2
           \<Longrightarrow> \<not> exists_path f2 (path_join d name)
           \<Longrightarrow> src = Buf b \<or> (\<exists>q. src = Path q \<and> map_of f2 q = Some (File b))
           \<Longrightarrow> write_file src d h st
               = Done (st\<lparr>FOUND := insert h (FOUND st),
                          fs := AList.update (path_join d name) (File b) f2\<rparr>) \<Longrightarrow> P"
    and "\<And>name f2 q. map_of (DB st) h = Some name
           \<Longrightarrow> mkdir_parents (dirname (path_join d name)) (fs st) = Inr f2
           \<Longrightarrow> \<not> exists_path f2 (path_join d name)
           \<Longrightarrow> src = Path q \<Longrightarrow> \<not> isfile f2 q
           \<Longrightarrow> write_file src d h st
               = Raised OSError (st\<lparr>FOUND := insert h (FOUND st), fs := f2\<rparr>) \<Longrightarrow> P"
  shows P
proof (cases "map_of (DB st) h")
  case None
  then show ?thesis using assms(1) write_file_absent by blast
next
  case (Some name)
  show ?thesis
  proof (cases "mkdir_parents (dirname (path_join d name)) (fs st)")
    case (Inl e)
    then show ?thesis using assms(2) [OF Some Inl] write_file_mkdir_fails [OF Some Inl] by blast
  next
    case (Inr f2)
    show ?thesis
    proof (cases "exists_path f2 (path_join d name)")
      case True
      then show ?thesis using assms(3) [OF Some Inr True] write_file_exists [OF Some Inr True] by blast
    next
      case False
      show ?thesis
      proof (cases src)
        case (Buf b)
        then show ?thesis using assms(4) [OF Some Inr False, of b] write_file_buf [OF Some Inr False] by blast
      next
        case (Path q)
        show ?thesis
        proof (cases "isfile f2 q")
          case True
          then obtain b where b: "map_of f2 q = Some (File b)"
            by (auto simp: isfile_def split: option.splits node.splits)
          show ?thesis
            using assms(4) [OF Some Inr False, of b] write_file_copy [OF Some Inr False b] Path b by blast
        next
          case nf: False
          show ?thesis
            using assms(5) [OF Some Inr False Path nf] write_file_copy_fails [OF Some Inr False nf] Path by blast
        qed
      qed
    qed
  qed
qed

lemma key_of_index: "map_of db h = Some name \<Longrightarrow> h \<in> fst ` set db"
  by (force dest: map_of_SomeD)

lemma write_file_evolves: "evolves st (state_of (write_file src d h st))"
proof (cases rule: write_file_cases [of st h src d])
  case absent
  then show ?thesis by (simp add: evolves_refl)
next
  case (mkdir_fails name e)
  then show ?thesis using key_of_index [OF mkdir_fails(1)] by (auto simp: evolves_def)
next
  case (exists_already name f2)
  have "map_of (fs st) \<subseteq>\<^sub>m map_of f2" using mkdir_parents_grows [OF exists_already(2)] .
  then show ?thesis using exists_already(4) key_of_index [OF exists_already(1)]
    by (auto simp: evolves_def)
next
  case (written name f2 b)
  let ?out = "path_join d name"
  have g: "map_of (fs st) \<subseteq>\<^sub>m map_of f2" using mkdir_parents_grows [OF written(2)] .
  have fresh: "map_of f2 ?out = None" using absent_after_mkdir [OF written(2) written(3)] .
  have g2: "map_of (fs st) \<subseteq>\<^sub>m map_of (AList.update ?out (File b) f2)"
    using g update_fresh_grows [OF fresh] by (rule map_le_trans)
  then show ?thesis using written(5) key_of_index [OF written(1)] by (auto simp: evolves_def)
next
  case (copy_fails name f2 q)
  have "map_of (fs st) \<subseteq>\<^sub>m map_of f2" using mkdir_parents_grows [OF copy_fails(2)] .
  then show ?thesis using copy_fails(6) key_of_index [OF copy_fails(1)]
    by (auto simp: evolves_def)
qed

lemma step_closed_refl: "step_closed R \<Longrightarrow> R s s"
  by (simp add: step_closed_def)

lemma step_closed_trans: "step_closed R \<Longrightarrow> R a b \<Longrightarrow> R b c \<Longrightarrow> R a c"
  unfolding step_closed_def by blast

lemma step_closed_write: "step_closed R \<Longrightarrow> R s (state_of (write_file src d h s))"
  by (simp add: step_closed_def)

lemma step_closed_print: "step_closed R \<Longrightarrow> R s (s\<lparr>stdout := m\<rparr>)"
  by (simp add: step_closed_def)

lemma traversal_rel:
  assumes sc: "step_closed R"
  shows "read_archive n L src d st = Some out \<Longrightarrow> R st (state_of out)"
    and "read_entries n L es d st = Some out \<Longrightarrow> R st (state_of out)"
    and "read_file n L src d st = Some out \<Longrightarrow> R st (state_of out)"
proof (induction n L src d st and n L es d st and n L src d st
       arbitrary: out and out and out
       rule: read_archive_read_entries_read_file.induct)
  case (1 L src destination st)
  then show ?case by simp
next
  case (2 n L src destination st)
  obtain entries ok where o: "open_reader L st src = (entries, ok)" by (cases "open_reader L st src")
  from "2.prems" o obtain out' where r: "read_entries n L entries destination st = Some out'"
    and so: "state_of out = state_of out'"
    by (auto split: option.splits outcome.splits if_splits)
  show ?case using "2.IH" [OF o [symmetric] r] so by simp
next
  case (3 n L destination st)
  then show ?case using step_closed_refl [OF sc] by auto
next
  case (4 n L buf rest destination st)
  show ?case
  proof (cases "read_archive n L (Buf buf) destination st")
    case None
    then show ?thesis using "4.prems" by simp
  next
    case (Some o1)
    have r1: "R st (state_of o1)" using "4.IH"(1) [OF Some] .
    show ?thesis
    proof (cases o1)
      case (Done s1)
      then have "read_entries n L rest destination s1 = Some out" using "4.prems" Some by simp
      then have "R s1 (state_of out)" using "4.IH"(2) [OF Some Done] by simp
      then show ?thesis using r1 Done step_closed_trans [OF sc] by auto
    next
      case (Raised e s1)
      show ?thesis
      proof (cases "catchable e")
        case False
        then show ?thesis using "4.prems" Some Raised r1 by auto
      next
        case True
        show ?thesis
        proof (cases "read_file n L (Buf buf) destination s1")
          case None
          then show ?thesis using "4.prems" Some Raised True by simp
        next
          case (Some o2)
          have r2: "R s1 (state_of o2)"
            using "4.IH"(3) [OF \<open>read_archive n L (Buf buf) destination st = Some o1\<close> Raised True Some] .
          show ?thesis
          proof (cases o2)
            case (Done s2)
            then have "read_entries n L rest destination s2 = Some out"
              using "4.prems" \<open>read_archive n L (Buf buf) destination st = Some o1\<close> Raised True Some by simp
            then have "R s2 (state_of out)"
              using "4.IH"(4) [OF \<open>read_archive n L (Buf buf) destination st = Some o1\<close> Raised True Some Done] by simp
            then show ?thesis using r1 r2 Raised Done step_closed_trans [OF sc] by (metis state_of.simps)
          next
            case (Raised e2 s2)
            then have "out = Raised e2 s2"
              using "4.prems" \<open>read_archive n L (Buf buf) destination st = Some o1\<close> \<open>o1 = Raised e s1\<close> True Some by simp
            then show ?thesis using r1 r2 Raised \<open>o1 = Raised e s1\<close> step_closed_trans [OF sc] by (metis state_of.simps)
          qed
        qed
      qed
    qed
  qed
next
  case (5 n L b destination st)
  then show ?case using step_closed_write [OF sc] by auto
next
  case (6 n L p destination st)
  show ?case
  proof (cases "isfile (fs st) p")
    case False
    then show ?thesis using "6.prems" step_closed_print [OF sc] by auto
  next
    case True
    show ?thesis
    proof (cases "read_archive n L (Path p) destination st")
      case None
      then show ?thesis using "6.prems" True by simp
    next
      case (Some o1)
      have r1: "R st (state_of o1)" using "6.IH" [OF True Some] .
      show ?thesis
      proof (cases o1)
        case (Done s1)
        then show ?thesis using "6.prems" True Some r1 by auto
      next
        case (Raised e s1)
        show ?thesis
        proof (cases "catchable e")
          case False
          then show ?thesis using "6.prems" True Some Raised r1 by auto
        next
          case c: True
          show ?thesis
          proof (cases "hash_file L (fs s1) p")
            case (Inl e')
            then show ?thesis using "6.prems" True Some Raised r1 c by auto
          next
            case (Inr h)
            then have "out = write_file (Path p) destination h s1"
              using "6.prems" True Some Raised c by auto
            then show ?thesis using r1 Raised step_closed_write [OF sc] step_closed_trans [OF sc] by (metis state_of.simps)
          qed
        qed
      qed
    qed
  qed
qed

lemma read_dir_rel:
  assumes sc: "step_closed R"
  shows "read_dir n L source d st = Some out \<Longrightarrow> R st (state_of out)"
    and "read_dir_paths n L paths d st = Some out \<Longrightarrow> R st (state_of out)"
proof (induction n L source d st and n L paths d st
       arbitrary: out and out rule: read_dir_read_dir_paths.induct)
  case (1 L source destination st)
  then show ?case by simp
next
  case (2 n L source destination st)
  then show ?case by simp
next
  case (3 n L destination st)
  then show ?case using step_closed_refl [OF sc] by auto
next
  case (4 n L path rest destination st)
  note rf = traversal_rel(3) [OF sc]
  show ?case
  proof (cases "isdir (fs st) path")
    case True
    show ?thesis
    proof (cases "read_dir n L path destination st")
      case None
      then show ?thesis using "4.prems" True by simp
    next
      case (Some o1)
      have r1: "R st (state_of o1)" using "4.IH"(1) [OF True Some] .
      show ?thesis
      proof (cases o1)
        case (Done s1)
        then have "read_dir_paths n L rest destination s1 = Some out"
          using "4.prems" True Some by simp
        then have "R s1 (state_of out)" using "4.IH"(2) [OF True Some Done] by simp
        then show ?thesis using r1 Done step_closed_trans [OF sc] by (metis state_of.simps(1))
      next
        case (Raised e s1)
        then show ?thesis using "4.prems" True Some r1 by auto
      qed
    qed
  next
    case nd: False
    show ?thesis
    proof (cases "isfile (fs st) path")
      case True
      show ?thesis
      proof (cases "read_file n L (Path path) destination st")
        case None
        then show ?thesis using "4.prems" nd True by simp
      next
        case (Some o1)
        have r1: "R st (state_of o1)" using rf [OF Some] .
        show ?thesis
        proof (cases o1)
          case (Done s1)
          then have "read_dir_paths n L rest destination s1 = Some out"
            using "4.prems" nd True Some by simp
          then have "R s1 (state_of out)" using "4.IH"(3) [OF nd True Some Done] by simp
          then show ?thesis using r1 Done step_closed_trans [OF sc] by (metis state_of.simps(1))
        next
          case (Raised e s1)
          then show ?thesis using "4.prems" nd True Some r1 by auto
        qed
      qed
    next
      case False
      then have "read_dir_paths n L rest destination st = Some out"
        using "4.prems" nd by simp
      then show ?thesis using "4.IH"(4) [OF nd False] by simp
    qed
  qed
qed

lemma main_sources_rel:
  assumes sc: "step_closed R"
  shows "main_sources n L sources d st = Some out \<Longrightarrow> R st (state_of out)"
proof (induction sources arbitrary: st out)
  case Nil
  then show ?case using step_closed_refl [OF sc] by auto
next
  case (Cons source rest)
  note rf = traversal_rel(3) [OF sc]
  note rd = read_dir_rel(1) [OF sc]
  show ?case
  proof (cases "isdir (fs st) source")
    case True
    show ?thesis
    proof (cases "read_dir n L source d st")
      case None
      then show ?thesis using Cons.prems True by simp
    next
      case (Some o1)
      have r1: "R st (state_of o1)" using rd [OF Some] .
      show ?thesis
      proof (cases o1)
        case (Done s1)
        then have "main_sources n L rest d s1 = Some out" using Cons.prems True Some by simp
        then have "R s1 (state_of out)" using Cons.IH by simp
        then show ?thesis using r1 Done step_closed_trans [OF sc] by (metis state_of.simps(1))
      next
        case (Raised e s1)
        then show ?thesis using Cons.prems True Some r1 by auto
      qed
    qed
  next
    case nd: False
    show ?thesis
    proof (cases "isfile (fs st) source")
      case True
      show ?thesis
      proof (cases "read_file n L (Path source) d st")
        case None
        then show ?thesis using Cons.prems nd True by simp
      next
        case (Some o1)
        have r1: "R st (state_of o1)" using rf [OF Some] .
        show ?thesis
        proof (cases o1)
          case (Done s1)
          then have "main_sources n L rest d s1 = Some out" using Cons.prems nd True Some by simp
          then have "R s1 (state_of out)" using Cons.IH by simp
          then show ?thesis using r1 Done step_closed_trans [OF sc] by (metis state_of.simps(1))
        next
          case (Raised e s1)
          then show ?thesis using Cons.prems nd True Some r1 by auto
        qed
      qed
    next
      case False
      then have "main_sources n L rest d st = Some out" using Cons.prems nd by simp
      then show ?thesis using Cons.IH by simp
    qed
  qed
qed

lemma evolves_step_closed: "step_closed evolves"
  unfolding step_closed_def
  using evolves_refl evolves_trans write_file_evolves evolves_stdout by blast

lemmas read_archive_evolves =
  traversal_rel(1) [OF evolves_step_closed]
lemmas read_entries_evolves =
  traversal_rel(2) [OF evolves_step_closed]
lemmas read_file_evolves =
  traversal_rel(3) [OF evolves_step_closed]
lemmas read_dir_evolves =
  read_dir_rel(1) [OF evolves_step_closed]
lemmas read_dir_paths_evolves =
  read_dir_rel(2) [OF evolves_step_closed]
lemmas main_sources_evolves =
  main_sources_rel [OF evolves_step_closed]

text \<open>\<open>load_smdb\<close> replaces \<open>DB\<close> and touches nothing else.\<close>

lemma load_lines_frame:
  "load_lines ls st = out \<Longrightarrow>
     FOUND (state_of out) = FOUND st \<and> fs (state_of out) = fs st
     \<and> stdout (state_of out) = stdout st \<and> stderr (state_of out) = stderr st"
  by (induction ls arbitrary: st out) (auto split: sum.splits)

lemma load_smdb_frame:
  "load_smdb smdb st = out \<Longrightarrow>
     FOUND (state_of out) = FOUND st \<and> fs (state_of out) = fs st
     \<and> stdout (state_of out) = stdout st \<and> stderr (state_of out) = stderr st"
proof -
  assume a: "load_smdb smdb st = out"
  show ?thesis
  proof (cases "map_of (fs st) smdb")
    case None
    then show ?thesis using a by (auto simp: load_smdb_def Let_def)
  next
    case (Some n)
    show ?thesis
    proof (cases n)
      case (File content)
      then have "load_lines (sort_lines (readlines (universal_newlines content))) (st\<lparr>DB := []\<rparr>) = out"
        using a Some by (simp add: load_smdb_def Let_def)
      from load_lines_frame [OF this] show ?thesis by simp
    next
      case Dir
      then show ?thesis using a Some by (auto simp: load_smdb_def Let_def)
    next
      case Other
      then show ?thesis using a Some by (auto simp: load_smdb_def Let_def)
    qed
  qed
qed

section \<open>Facts about main and write\_file\<close>

lemma main_short_args: "length args < 2 \<Longrightarrow> main n L args st = Some (Raised NameError st)"
  by (cases args rule: list.exhaust; cases "tl args") (auto simp: main_def)

lemma main_no_destination:
  "\<not> isdir (fs st) d \<Longrightarrow>
     main n L (smdb # d # sources) st = Some (Done (st\<lparr>stderr := stderr st @ [ErrDestination d]\<rparr>))"
  by (simp add: main_def)

lemma main_load_fails:
  "isdir (fs st) d \<Longrightarrow> load_smdb smdb st = Raised e st1 \<Longrightarrow>
     main n L (smdb # d # sources) st =
       (if e = ValueError then Some (Done (st1\<lparr>stderr := stderr st1 @ [ErrSmdb]\<rparr>))
        else Some (Raised e st1))"
  by (simp add: main_def)

lemma main_loaded:
  "isdir (fs st) d \<Longrightarrow> load_smdb smdb st = Done st1 \<Longrightarrow>
     main n L (smdb # d # sources) st =
       (case main_sources n L sources d st1 of
          None \<Rightarrow> None
        | Some (Done st2) \<Rightarrow> Some (report st2)
        | Some (Raised e st2) \<Rightarrow> Some (Raised e st2))"
  by (simp add: main_def)

lemma report_frame:
  "DB (state_of (report st)) = DB st \<and> FOUND (state_of (report st)) = FOUND st
   \<and> fs (state_of (report st)) = fs st \<and> stderr (state_of (report st)) = stderr st"
  by (simp add: report_def Let_def)

text \<open>Every way a call of \<open>main\<close> can go.\<close>

lemma main_cases [case_names short_args no_destination load_fails unfinished raised reported]:
  assumes "length args < 2 \<Longrightarrow> main n L args st = Some (Raised NameError st) \<Longrightarrow> P"
    and "\<And>smdb d sources. args = smdb # d # sources \<Longrightarrow> \<not> isdir (fs st) d
           \<Longrightarrow> main n L args st = Some (Done (st\<lparr>stderr := stderr st @ [ErrDestination d]\<rparr>)) \<Longrightarrow> P"
    and "\<And>smdb d sources e st1. args = smdb # d # sources \<Longrightarrow> isdir (fs st) d
           \<Longrightarrow> load_smdb smdb st = Raised e st1
           \<Longrightarrow> main n L args st =
                 (if e = ValueError then Some (Done (st1\<lparr>stderr := stderr st1 @ [ErrSmdb]\<rparr>))
                  else Some (Raised e st1)) \<Longrightarrow> P"
    and "\<And>smdb d sources st1. args = smdb # d # sources \<Longrightarrow> isdir (fs st) d
           \<Longrightarrow> load_smdb smdb st = Done st1
           \<Longrightarrow> main_sources n L sources d st1 = None \<Longrightarrow> main n L args st = None \<Longrightarrow> P"
    and "\<And>smdb d sources st1 e st2. args = smdb # d # sources \<Longrightarrow> isdir (fs st) d
           \<Longrightarrow> load_smdb smdb st = Done st1
           \<Longrightarrow> main_sources n L sources d st1 = Some (Raised e st2)
           \<Longrightarrow> main n L args st = Some (Raised e st2) \<Longrightarrow> P"
    and "\<And>smdb d sources st1 st2. args = smdb # d # sources \<Longrightarrow> isdir (fs st) d
           \<Longrightarrow> load_smdb smdb st = Done st1
           \<Longrightarrow> main_sources n L sources d st1 = Some (Done st2)
           \<Longrightarrow> main n L args st = Some (report st2) \<Longrightarrow> P"
  shows P
proof (cases "length args < 2")
  case True
  then show ?thesis using assms(1) main_short_args by blast
next
  case False
  then obtain smdb d sources where args: "args = smdb # d # sources"
    by (cases args; cases "tl args") auto
  show ?thesis
  proof (cases "isdir (fs st) d")
    case nd: False
    then show ?thesis using assms(2) [OF args nd] main_no_destination [OF nd] args by blast
  next
    case True
    show ?thesis
    proof (cases "load_smdb smdb st")
      case (Raised e st1)
      then show ?thesis using assms(3) [OF args True Raised] main_load_fails [OF True Raised] args by blast
    next
      case (Done st1)
      note ml = main_loaded [OF True Done, of n L sources]
      show ?thesis
      proof (cases "main_sources n L sources d st1")
        case None
        then show ?thesis using assms(4) [OF args True Done None] ml args by simp
      next
        case (Some o2)
        show ?thesis
        proof (cases o2)
          case d2: (Done st2)
          then show ?thesis using assms(6) [OF args True Done] Some ml args by simp
        next
          case r2: (Raised e st2)
          then show ?thesis using assms(5) [OF args True Done] Some ml args by simp
        qed
      qed
    qed
  qed
qed

lemma main_grows:
  assumes "main n L args st = Some out"
  shows "map_of (fs st) \<subseteq>\<^sub>m map_of (fs (state_of out))"
proof (cases rule: main_cases [of args n L st])
  case short_args
  then show ?thesis using assms by auto
next
  case (no_destination smdb d sources)
  then show ?thesis using assms by auto
next
  case (load_fails smdb d sources e st1)
  have "fs st1 = fs st" using load_smdb_frame [OF load_fails(3)] by simp
  then show ?thesis using assms load_fails(4) by (auto split: if_splits)
next
  case (unfinished smdb d sources st1)
  then show ?thesis using assms by simp
next
  case (raised smdb d sources st1 e st2)
  have "fs st1 = fs st" using load_smdb_frame [OF raised(3)] by simp
  moreover have "evolves st1 st2" using main_sources_evolves [OF raised(4)] by simp
  ultimately show ?thesis using assms raised(5) by (auto simp: evolves_def)
next
  case (reported smdb d sources st1 st2)
  have "fs st1 = fs st" using load_smdb_frame [OF reported(3)] by simp
  moreover have "evolves st1 st2" using main_sources_evolves [OF reported(4)] by simp
  ultimately show ?thesis using assms reported(5) report_frame [of st2] by (auto simp: evolves_def)
qed

lemma main_found:
  assumes "main n L args st = Some out" and "FOUND st = {}"
  shows "FOUND (state_of out) \<subseteq> fst ` set (DB (state_of out))"
proof (cases rule: main_cases [of args n L st])
  case short_args
  then show ?thesis using assms by auto
next
  case (no_destination smdb d sources)
  then show ?thesis using assms by auto
next
  case (load_fails smdb d sources e st1)
  have "FOUND st1 = {}" using load_smdb_frame [OF load_fails(3)] assms(2) by simp
  then show ?thesis using assms(1) load_fails(4) by (auto split: if_splits)
next
  case (unfinished smdb d sources st1)
  then show ?thesis using assms by simp
next
  case (raised smdb d sources st1 e st2)
  have "FOUND st1 = {}" using load_smdb_frame [OF raised(3)] assms(2) by simp
  moreover have "evolves st1 st2" using main_sources_evolves [OF raised(4)] by simp
  ultimately show ?thesis using assms raised(5) by (auto simp: evolves_def)
next
  case (reported smdb d sources st1 st2)
  have "FOUND st1 = {}" using load_smdb_frame [OF reported(3)] assms(2) by simp
  moreover have "evolves st1 st2" using main_sources_evolves [OF reported(4)] by simp
  ultimately show ?thesis using assms reported(5) report_frame [of st2] by (auto simp: evolves_def)
qed

lemma isdir_dirname:
  "isdir f (dirname p) \<Longrightarrow> dirname (dirname p) = dirname p \<or> map_of f (dirname p) = Some Dir"
proof -
  assume a: "isdir f (dirname p)"
  have n: "norm (dirname p) = dirname p" by (rule norm_dirname)
  show ?thesis
  proof (cases "is_root (dirname p)")
    case True
    then show ?thesis using anchor_iff by blast
  next
    case False
    then show ?thesis using a n by (simp add: isdir_def node_at_def)
  qed
qed

lemma write_file_found:
  "FOUND (state_of (write_file src d h st)) =
     (if h \<in> fst ` set (DB st) then insert h (FOUND st) else FOUND st)"
proof (cases rule: write_file_cases [of st h src d])
  case absent
  then show ?thesis by (simp add: map_of_eq_None_iff)
next
  case (mkdir_fails name e)
  then show ?thesis using key_of_index [OF mkdir_fails(1)] by simp
next
  case (exists_already name f2)
  then show ?thesis using key_of_index [OF exists_already(1)] by simp
next
  case (written name f2 b)
  then show ?thesis using key_of_index [OF written(1)] by simp
next
  case (copy_fails name f2 q)
  then show ?thesis using key_of_index [OF copy_fails(1)] by simp
qed

section \<open>Which exceptions leave the traversal\<close>

lemma write_raises_keep: "write_raises I W \<Longrightarrow> I s \<Longrightarrow> I (state_of (write_file src d h s))"
  unfolding write_raises_def by blast

lemma write_raises_error:
  "write_raises I W \<Longrightarrow> I s \<Longrightarrow> write_file src d h s = Raised e s' \<Longrightarrow> W e"
  unfolding write_raises_def by blast

lemma write_raises_print: "write_raises I W \<Longrightarrow> I s \<Longrightarrow> I (s\<lparr>stdout := m\<rparr>)"
  unfolding write_raises_def by blast

lemma hash_file_later:
  assumes "isfile (fs st) p" and "evolves st st'"
  shows "\<exists>h. hash_file L (fs st') p = Inr h"
proof -
  obtain b where "map_of (fs st) p = Some (File b)"
    using assms(1) by (auto simp: isfile_def split: option.splits node.splits)
  then have "map_of (fs st') p = Some (File b)"
    using assms(2) by (auto simp: evolves_def map_le_def dom_def)
  then show ?thesis by (simp add: hash_file_def)
qed

lemma traversal_raises:
  assumes wr: "write_raises I W"
  shows "I st \<Longrightarrow> read_archive n L src d st = Some out \<Longrightarrow>
           I (state_of out) \<and> (\<forall>e s. out = Raised e s \<longrightarrow> W e \<or> e = ArchiveError)"
    and "I st \<Longrightarrow> read_entries n L es d st = Some out \<Longrightarrow>
           I (state_of out) \<and> (\<forall>e s. out = Raised e s \<longrightarrow> W e)"
    and "I st \<Longrightarrow> read_file n L src d st = Some out \<Longrightarrow>
           I (state_of out) \<and> (\<forall>e s. out = Raised e s \<longrightarrow> W e)"
proof (induction n L src d st and n L es d st and n L src d st
       arbitrary: out and out and out
       rule: read_archive_read_entries_read_file.induct)
  case (1 L src destination st)
  then show ?case by simp
next
  case (2 n L src destination st)
  obtain entries ok where o: "open_reader L st src = (entries, ok)" by (cases "open_reader L st src")
  show ?case
  proof (cases "read_entries n L entries destination st")
    case None
    then show ?thesis using "2.prems" o by simp
  next
    case (Some o1)
    have ih: "I (state_of o1) \<and> (\<forall>e s. o1 = Raised e s \<longrightarrow> W e)"
      using "2.IH" [OF o [symmetric] "2.prems"(1) Some] .
    show ?thesis
    proof (cases o1)
      case (Done s1)
      then show ?thesis using "2.prems"(2) o Some ih by (cases ok) auto
    next
      case (Raised e s1)
      then show ?thesis using "2.prems"(2) o Some ih by auto
    qed
  qed
next
  case (3 n L destination st)
  then show ?case by auto
next
  case (4 n L buf rest destination st)
  show ?case
  proof (cases "read_archive n L (Buf buf) destination st")
    case None
    then show ?thesis using "4.prems" by simp
  next
    case (Some o1)
    have r1: "I (state_of o1) \<and> (\<forall>e s. o1 = Raised e s \<longrightarrow> W e \<or> e = ArchiveError)"
      using "4.IH"(1) [OF "4.prems"(1) Some] .
    show ?thesis
    proof (cases o1)
      case (Done s1)
      then have "read_entries n L rest destination s1 = Some out" using "4.prems" Some by simp
      then show ?thesis using "4.IH"(2) [OF Some Done] r1 Done by simp
    next
      case (Raised e s1)
      show ?thesis
      proof (cases "catchable e")
        case False
        then have "e \<noteq> ArchiveError" by (auto simp: catchable_def)
        then show ?thesis using "4.prems" Some Raised r1 False by auto
      next
        case True
        show ?thesis
        proof (cases "read_file n L (Buf buf) destination s1")
          case None
          then show ?thesis using "4.prems" Some Raised True by simp
        next
          case s2: (Some o2)
          have r2: "I (state_of o2) \<and> (\<forall>e s. o2 = Raised e s \<longrightarrow> W e)"
            using "4.IH"(3) [OF Some Raised True _ s2] r1 Raised by simp
          show ?thesis
          proof (cases o2)
            case (Done s2')
            then have "read_entries n L rest destination s2' = Some out"
              using "4.prems" Some Raised True s2 by simp
            then show ?thesis using "4.IH"(4) [OF Some Raised True s2 Done] r2 Done by simp
          next
            case r: (Raised e2 s2')
            then have "out = Raised e2 s2'" using "4.prems" Some Raised True s2 by simp
            then show ?thesis using r2 r by simp
          qed
        qed
      qed
    qed
  qed
next
  case (5 n L b destination st)
  then show ?case using write_raises_keep [OF wr] write_raises_error [OF wr] by auto
next
  case (6 n L p destination st)
  show ?case
  proof (cases "isfile (fs st) p")
    case False
    then show ?thesis using "6.prems" write_raises_print [OF wr] by auto
  next
    case True
    show ?thesis
    proof (cases "read_archive n L (Path p) destination st")
      case None
      then show ?thesis using "6.prems" True by simp
    next
      case (Some o1)
      have r1: "I (state_of o1) \<and> (\<forall>e s. o1 = Raised e s \<longrightarrow> W e \<or> e = ArchiveError)"
        using "6.IH" [OF True "6.prems"(1) Some] .
      have ev: "evolves st (state_of o1)" using read_archive_evolves [OF Some] .
      show ?thesis
      proof (cases o1)
        case (Done s1)
        then show ?thesis using "6.prems" True Some r1 by auto
      next
        case (Raised e s1)
        show ?thesis
        proof (cases "catchable e")
          case False
          then have "e \<noteq> ArchiveError" by (auto simp: catchable_def)
          then show ?thesis using "6.prems" True Some Raised r1 False by auto
        next
          case c: True
          obtain h where h: "hash_file L (fs s1) p = Inr h"
            using hash_file_later [OF True] ev Raised by auto
          then have "out = write_file (Path p) destination h s1"
            using "6.prems" True Some Raised c by auto
          then show ?thesis
            using r1 Raised write_raises_keep [OF wr] write_raises_error [OF wr] by auto
        qed
      qed
    qed
  qed
qed

lemma read_dir_raises:
  assumes wr: "write_raises I W"
  shows "I st \<Longrightarrow> read_dir n L source d st = Some out \<Longrightarrow>
           I (state_of out) \<and> (\<forall>e s. out = Raised e s \<longrightarrow> W e)"
    and "I st \<Longrightarrow> read_dir_paths n L paths d st = Some out \<Longrightarrow>
           I (state_of out) \<and> (\<forall>e s. out = Raised e s \<longrightarrow> W e)"
proof (induction n L source d st and n L paths d st
       arbitrary: out and out rule: read_dir_read_dir_paths.induct)
  case (1 L source destination st)
  then show ?case by simp
next
  case (2 n L source destination st)
  then show ?case by simp
next
  case (3 n L destination st)
  then show ?case by auto
next
  case (4 n L path rest destination st)
  note rf = traversal_raises(3) [OF wr]
  show ?case
  proof (cases "isdir (fs st) path")
    case True
    show ?thesis
    proof (cases "read_dir n L path destination st")
      case None
      then show ?thesis using "4.prems" True by simp
    next
      case (Some o1)
      have r1: "I (state_of o1) \<and> (\<forall>e s. o1 = Raised e s \<longrightarrow> W e)"
        using "4.IH"(1) [OF True "4.prems"(1) Some] .
      show ?thesis
      proof (cases o1)
        case (Done s1)
        then have "read_dir_paths n L rest destination s1 = Some out"
          using "4.prems" True Some by simp
        then show ?thesis using "4.IH"(2) [OF True Some Done] r1 Done by simp
      next
        case (Raised e s1)
        then show ?thesis using "4.prems" True Some r1 by auto
      qed
    qed
  next
    case nd: False
    show ?thesis
    proof (cases "isfile (fs st) path")
      case True
      show ?thesis
      proof (cases "read_file n L (Path path) destination st")
        case None
        then show ?thesis using "4.prems" nd True by simp
      next
        case (Some o1)
        have r1: "I (state_of o1) \<and> (\<forall>e s. o1 = Raised e s \<longrightarrow> W e)"
          using rf [OF "4.prems"(1) Some] .
        show ?thesis
        proof (cases o1)
          case (Done s1)
          then have "read_dir_paths n L rest destination s1 = Some out"
            using "4.prems" nd True Some by simp
          then show ?thesis using "4.IH"(3) [OF nd True Some Done] r1 Done by simp
        next
          case (Raised e s1)
          then show ?thesis using "4.prems" nd True Some r1 by auto
        qed
      qed
    next
      case False
      then have "read_dir_paths n L rest destination st = Some out"
        using "4.prems" nd by simp
      then show ?thesis using "4.IH"(4) [OF nd False "4.prems"(1)] by simp
    qed
  qed
qed

lemma main_sources_raises:
  assumes wr: "write_raises I W"
  shows "I st \<Longrightarrow> main_sources n L sources d st = Some out \<Longrightarrow>
           I (state_of out) \<and> (\<forall>e s. out = Raised e s \<longrightarrow> W e)"
proof (induction sources arbitrary: st out)
  case Nil
  then show ?case by auto
next
  case (Cons source rest)
  note rf = traversal_raises(3) [OF wr]
  note rd = read_dir_raises(1) [OF wr]
  show ?case
  proof (cases "isdir (fs st) source")
    case True
    show ?thesis
    proof (cases "read_dir n L source d st")
      case None
      then show ?thesis using Cons.prems True by simp
    next
      case (Some o1)
      have r1: "I (state_of o1) \<and> (\<forall>e s. o1 = Raised e s \<longrightarrow> W e)"
        using rd [OF Cons.prems(1) Some] .
      show ?thesis
      proof (cases o1)
        case (Done s1)
        then have "main_sources n L rest d s1 = Some out" using Cons.prems True Some by simp
        then show ?thesis using Cons.IH r1 Done by simp
      next
        case (Raised e s1)
        then show ?thesis using Cons.prems True Some r1 by auto
      qed
    qed
  next
    case nd: False
    show ?thesis
    proof (cases "isfile (fs st) source")
      case True
      show ?thesis
      proof (cases "read_file n L (Path source) d st")
        case None
        then show ?thesis using Cons.prems nd True by simp
      next
        case (Some o1)
        have r1: "I (state_of o1) \<and> (\<forall>e s. o1 = Raised e s \<longrightarrow> W e)"
          using rf [OF Cons.prems(1) Some] .
        show ?thesis
        proof (cases o1)
          case (Done s1)
          then have "main_sources n L rest d s1 = Some out" using Cons.prems nd True Some by simp
          then show ?thesis using Cons.IH r1 Done by simp
        next
          case (Raised e s1)
          then show ?thesis using Cons.prems nd True Some r1 by auto
        qed
      qed
    next
      case False
      then have "main_sources n L rest d st = Some out" using Cons.prems nd by simp
      then show ?thesis using Cons.IH Cons.prems(1) by simp
    qed
  qed
qed


text \<open>\<open>write_file\<close> raises nothing but \<open>OSError\<close>.\<close>

lemma write_file_error: "write_file src d h st = Raised e s' \<Longrightarrow> e = OSError"
proof (cases rule: write_file_cases [of st h src d])
  case absent
  assume "write_file src d h st = Raised e s'"
  then show ?thesis using absent by simp
next
  case (mkdir_fails name e')
  assume "write_file src d h st = Raised e s'"
  then show ?thesis using mkdir_fails(3) mkdir_parents_error [OF mkdir_fails(2)] by simp
next
  case (exists_already name f2)
  assume "write_file src d h st = Raised e s'"
  then show ?thesis using exists_already by simp
next
  case (written name f2 b)
  assume "write_file src d h st = Raised e s'"
  then show ?thesis using written by simp
next
  case (copy_fails name f2 q)
  assume "write_file src d h st = Raised e s'"
  then show ?thesis using copy_fails by simp
qed

lemma oserror_write_raises: "write_raises (\<lambda>s. True) (\<lambda>e. e = OSError)"
  unfolding write_raises_def using write_file_error by blast


lemma report_nonempty:
  "DB st \<noteq> [] \<Longrightarrow>
     report st = Done (st\<lparr>stdout := stdout st @
                   [MsgDone, SmdbLists (length (DB st)),
                    FoundFiles (card (FOUND st)) (length (DB st))]\<rparr>)"
  by (simp add: report_def Let_def)

lemma main_sources_root_raises:
  "(isdir (fs st) s \<and> read_dir n L s d st = Some (Raised e st'))
   \<or> (\<not> isdir (fs st) s \<and> isfile (fs st) s \<and> read_file n L (Path s) d st = Some (Raised e st'))
   \<Longrightarrow> main_sources n L (s # rest) d st = Some (Raised e st')"
  by auto

section \<open>Hashing: the chunked loop and the whole buffer\<close>

lemma hash_loop_message: "hash_loop h rest = h @ rest"
proof (induction h rest rule: hash_loop.induct)
  case (1 h rest)
  show ?case
  proof (cases "take 4096 rest = []")
    case True
    then have "rest = []" by simp
    then show ?thesis by (simp add: hash_loop.simps)
  next
    case False
    have "hash_loop h rest = hash_loop (hashlib_update h (take 4096 rest)) (drop 4096 rest)"
      using False by (subst hash_loop.simps) simp
    also have "\<dots> = hashlib_update h (take 4096 rest) @ drop 4096 rest"
      using "1.IH" [OF False] .
    also have "\<dots> = h @ rest"
      by (simp add: hashlib_update_def)
    finally show ?thesis .
  qed
qed

text \<open>
  C9. For every byte content \<open>b\<close>, \<open>hash_file\<close> on a file whose content is \<open>b\<close> returns
  the SHA-256 digest of \<open>b\<close>, which is what \<open>hash_mem\<close> returns for \<open>b\<close>: the loop over
  reads of 4096 bytes feeds the hash object the same message as one \<open>update\<close> with the
  whole buffer.
\<close>

theorem hash_file_chunked_whole:
  assumes "map_of f path = Some (File b)"
  shows "hash_file L f path = Inr (sha256 L b)
       \<and> hash_file L f path = Inr (hash_mem L b)
       \<and> hash_loop hashlib_new b = hashlib_update hashlib_new b"
  using assms
  by (simp add: hash_file_def hash_mem_def hashlib_digest_def hash_loop_message
      hashlib_update_def hashlib_new_def)

theorem hash_file_chunked_whole_witness:
  "map_of [(''rom'', File (replicate 5000 (CHR ''a'')))] ''rom'' = Some (File (replicate 5000 (CHR ''a'')))
   \<and> hash_file example_lib [(''rom'', File (replicate 5000 (CHR ''a'')))] ''rom''
       = Inr (sha256 example_lib (replicate 5000 (CHR ''a'')))
   \<and> hash_file example_lib [(''rom'', File (replicate 5000 (CHR ''a'')))] ''rom''
       = Inr (hash_mem example_lib (replicate 5000 (CHR ''a'')))"
proof -
  have h: "map_of [(''rom'', File (replicate 5000 (CHR ''a'')))] ''rom''
           = Some (File (replicate 5000 (CHR ''a'')))"
    by simp
  show ?thesis
    using h hash_file_chunked_whole [OF h, of example_lib] by blast
qed

section \<open>C2: an existing output path is never written\<close>

text \<open>
  C2. No overwrite, first writer wins. When the hash is in the index and its output
  path already exists (in its directory, as every existing path is), \<open>write_file\<close>
  records the hash and returns: the file system is unchanged, so the bytes of the file
  that was there are unchanged, nothing is written and no error is raised. Moreover no
  call of \<open>write_file\<close> and no run of \<open>main\<close> ever changes or removes an entry that the
  file system already has: what is first written at a path stays.
\<close>

theorem write_file_no_overwrite:
  assumes "map_of (DB st) h = Some name"
    and "exists_path (fs st) (path_join d name)"
    and "dirname (dirname (path_join d name)) = dirname (path_join d name)
         \<or> isdir (fs st) (dirname (path_join d name))"
  shows "write_file src d h st = Done (st\<lparr>FOUND := insert h (FOUND st)\<rparr>)
       \<and> map_of (fs st') \<subseteq>\<^sub>m map_of (fs (state_of (write_file src' d' h' st')))
       \<and> (main n L args st0 = Some out \<longrightarrow> map_of (fs st0) \<subseteq>\<^sub>m map_of (fs (state_of out)))"
proof -
  have "mkdir_parents (dirname (path_join d name)) (fs st) = Inr (fs st)"
    using assms(3) isdir_dirname by (intro mkdir_parents_fixed) blast
  from write_file_exists [OF assms(1) this assms(2)]
  have "write_file src d h st = Done (st\<lparr>FOUND := insert h (FOUND st)\<rparr>)" by simp
  moreover have "map_of (fs st') \<subseteq>\<^sub>m map_of (fs (state_of (write_file src' d' h' st')))"
    using write_file_evolves [of st' src' d' h'] by (simp add: evolves_def)
  ultimately show ?thesis using main_grows by blast
qed

theorem write_file_no_overwrite_witness:
  "map_of (DB example_state) ''k'' = Some ''g/a.rom''
   \<and> exists_path (fs example_state) (path_join ''out'' ''g/a.rom'')
   \<and> isdir (fs example_state) (dirname (path_join ''out'' ''g/a.rom''))
   \<and> write_file (Buf ''new'') ''out'' ''k'' example_state
       = Done (example_state\<lparr>FOUND := insert ''k'' (FOUND example_state)\<rparr>)"
proof -
  have h1: "map_of (DB example_state) ''k'' = Some ''g/a.rom''"
    by (simp add: example_state_def)
  have h2: "exists_path (fs example_state) (path_join ''out'' ''g/a.rom'')"
    by code_simp
  have h3: "isdir (fs example_state) (dirname (path_join ''out'' ''g/a.rom''))"
    by code_simp
  show ?thesis
    using h1 h2 h3 write_file_no_overwrite [OF h1 h2 disjI2 [OF h3]] by blast
qed

section \<open>C3: FOUND stays within the keys of DB\<close>

text \<open>
  C3. Found Set containment. \<open>write_file\<close> is the only place that adds to \<open>FOUND\<close>, and
  it adds the hash exactly when the hash is a key of \<open>DB\<close>. From a state in which
  \<open>FOUND\<close> lies within the keys of \<open>DB\<close>, every traversal (of a file, a directory, the
  list of sources) ends, normally or by an exception, in a state where \<open>FOUND\<close> has only
  grown and still lies within the keys of \<open>DB\<close>; and so does every run of \<open>main\<close> from the
  initial state.
\<close>

theorem found_within_index:
  assumes "FOUND st \<subseteq> fst ` set (DB st)"
  shows "FOUND (state_of (write_file src d h st))
           = (if h \<in> fst ` set (DB st) then insert h (FOUND st) else FOUND st)
       \<and> (read_file n L src d st = Some out1 \<longrightarrow>
            FOUND st \<subseteq> FOUND (state_of out1)
            \<and> FOUND (state_of out1) \<subseteq> fst ` set (DB (state_of out1)))
       \<and> (read_dir n L p d st = Some out2 \<longrightarrow>
            FOUND st \<subseteq> FOUND (state_of out2)
            \<and> FOUND (state_of out2) \<subseteq> fst ` set (DB (state_of out2)))
       \<and> (main_sources n L sources d st = Some out3 \<longrightarrow>
            FOUND st \<subseteq> FOUND (state_of out3)
            \<and> FOUND (state_of out3) \<subseteq> fst ` set (DB (state_of out3)))
       \<and> (main n L args (initial f) = Some out4 \<longrightarrow>
            FOUND (state_of out4) \<subseteq> fst ` set (DB (state_of out4)))"
proof -
  have ev: "FOUND st \<subseteq> FOUND s' \<and> FOUND s' \<subseteq> fst ` set (DB s')" if "evolves st s'" for s'
    using that assms by (auto simp: evolves_def)
  have "read_file n L src d st = Some out1 \<longrightarrow>
          FOUND st \<subseteq> FOUND (state_of out1)
          \<and> FOUND (state_of out1) \<subseteq> fst ` set (DB (state_of out1))"
    using read_file_evolves ev by blast
  moreover have "read_dir n L p d st = Some out2 \<longrightarrow>
          FOUND st \<subseteq> FOUND (state_of out2)
          \<and> FOUND (state_of out2) \<subseteq> fst ` set (DB (state_of out2))"
    using read_dir_evolves ev by blast
  moreover have "main_sources n L sources d st = Some out3 \<longrightarrow>
          FOUND st \<subseteq> FOUND (state_of out3)
          \<and> FOUND (state_of out3) \<subseteq> fst ` set (DB (state_of out3))"
    using main_sources_evolves ev by blast
  moreover have "main n L args (initial f) = Some out4 \<longrightarrow>
          FOUND (state_of out4) \<subseteq> fst ` set (DB (state_of out4))"
    using main_found [of n L args "initial f" out4] by (simp add: initial_def)
  ultimately show ?thesis using write_file_found by blast
qed

theorem found_within_index_witness:
  "FOUND example_state \<subseteq> fst ` set (DB example_state)
   \<and> FOUND (state_of (write_file (Buf ''new'') ''out'' ''k'' example_state)) = {''k''}
   \<and> FOUND (state_of (write_file (Buf ''new'') ''out'' ''j'' example_state)) = {}"
proof -
  have h: "FOUND example_state \<subseteq> fst ` set (DB example_state)"
    by (simp add: example_state_def)
  have k: "''k'' \<in> fst ` set (DB example_state)" "''j'' \<notin> fst ` set (DB example_state)"
    "FOUND example_state = {}"
    by (simp_all add: example_state_def)
  show ?thesis
    using h k found_within_index [OF h, of "Buf ''new''" "''out''" "''k''"]
      found_within_index [OF h, of "Buf ''new''" "''out''" "''j''"]
    by simp
qed

section \<open>C10: an empty index ends the run in a division by zero\<close>



section \<open>C7: an exception in a root ends the run\<close>

text \<open>
  C7 as stated fails. \<open>main\<close> has no handler around the resolution of a root: here the
  index is built, the only root matches, the directory of its output path cannot be
  made because a regular file is in the way, and the \<open>OSError\<close> leaves \<open>main\<close>. Nothing
  is printed: no matched count, no total.
\<close>

theorem root_failure_counterexample:
  "load_smdb ''db'' (initial blocked_fs) = Done blocked_loaded
   \<and> main 3 example_lib [''db'', ''out'', ''rom''] (initial blocked_fs)
       = Some (Raised OSError (blocked_loaded\<lparr>FOUND := {zeros}\<rparr>))
   \<and> stdout (blocked_loaded\<lparr>FOUND := {zeros}\<rparr>) = []"
  by code_simp

text \<open>
  C7, amended. For every input on which the index is built: if every root is resolved
  without an exception and the index is not empty, the run reaches its end and prints
  \<open>Done.\<close>, the size of the index and the number of hashes found; if resolving a root
  raises, the exception is an \<open>OSError\<close> and it leaves \<open>main\<close> as it is, with the state of
  that moment: the roots after it are not resolved and no report is printed.
\<close>

theorem run_completion:
  assumes "isdir (fs st) d" and "load_smdb smdb st = Done st1"
  shows "(main_sources n L sources d st1 = Some (Done st2) \<longrightarrow> DB st1 \<noteq> [] \<longrightarrow>
            main n L (smdb # d # sources) st
              = Some (Done (st2\<lparr>stdout := stdout st2 @
                              [MsgDone, SmdbLists (length (DB st1)),
                               FoundFiles (card (FOUND st2)) (length (DB st1))]\<rparr>)))
       \<and> (main_sources n L sources d st1 = Some (Raised e st3) \<longrightarrow>
            e = OSError \<and> main n L (smdb # d # sources) st = Some (Raised e st3))
       \<and> ((isdir (fs st4) s \<and> read_dir n L s d st4 = Some (Raised e' st5))
            \<or> (\<not> isdir (fs st4) s \<and> isfile (fs st4) s
                \<and> read_file n L (Path s) d st4 = Some (Raised e' st5))
           \<longrightarrow> main_sources n L (s # rest) d st4 = Some (Raised e' st5))"
proof -
  have a: "main n L (smdb # d # sources) st
              = Some (Done (st2\<lparr>stdout := stdout st2 @
                              [MsgDone, SmdbLists (length (DB st1)),
                               FoundFiles (card (FOUND st2)) (length (DB st1))]\<rparr>))"
    if s: "main_sources n L sources d st1 = Some (Done st2)" and ne: "DB st1 \<noteq> []"
  proof -
    have "evolves st1 st2" using main_sources_evolves [OF s] by simp
    then have db: "DB st2 = DB st1" by (simp add: evolves_def)
    have "main n L (smdb # d # sources) st = Some (report st2)"
      using main_loaded [OF assms] s by simp
    then show ?thesis using report_nonempty [of st2] db ne by simp
  qed
  have b: "e = OSError \<and> main n L (smdb # d # sources) st = Some (Raised e st3)"
    if s: "main_sources n L sources d st1 = Some (Raised e st3)"
  proof -
    have "e = OSError" using main_sources_raises [OF oserror_write_raises _ s] by simp
    moreover have "main n L (smdb # d # sources) st = Some (Raised e st3)"
      using main_loaded [OF assms] s by simp
    ultimately show ?thesis by simp
  qed
  show ?thesis using a b main_sources_root_raises by blast
qed

theorem run_completion_witness:
  "isdir (fs (initial blocked_fs)) ''out''
   \<and> load_smdb ''db'' (initial blocked_fs) = Done blocked_loaded
   \<and> main_sources 3 example_lib [''rom''] ''out'' blocked_loaded
       = Some (Raised OSError (blocked_loaded\<lparr>FOUND := {zeros}\<rparr>))
   \<and> main 3 example_lib [''db'', ''out'', ''rom''] (initial blocked_fs)
       = Some (Raised OSError (blocked_loaded\<lparr>FOUND := {zeros}\<rparr>))
   \<and> main_sources 3 example_lib [] ''out'' blocked_loaded = Some (Done blocked_loaded)
   \<and> DB blocked_loaded \<noteq> []
   \<and> main 3 example_lib [''db'', ''out''] (initial blocked_fs)
       = Some (Done (blocked_loaded\<lparr>stdout := stdout blocked_loaded @
                [MsgDone, SmdbLists (length (DB blocked_loaded)),
                 FoundFiles (card (FOUND blocked_loaded)) (length (DB blocked_loaded))]\<rparr>))"
proof -
  have h1: "isdir (fs (initial blocked_fs)) ''out''" by code_simp
  have h2: "load_smdb ''db'' (initial blocked_fs) = Done blocked_loaded" by code_simp
  have h3: "main_sources 3 example_lib [''rom''] ''out'' blocked_loaded
       = Some (Raised OSError (blocked_loaded\<lparr>FOUND := {zeros}\<rparr>))"
    by code_simp
  have h4: "main_sources 3 example_lib [] ''out'' blocked_loaded = Some (Done blocked_loaded)"
    by simp
  have h5: "DB blocked_loaded \<noteq> []" by (simp add: blocked_loaded_def)
  note t1 = run_completion [OF h1 h2, of 3 example_lib "[''rom'']" _ OSError
      "blocked_loaded\<lparr>FOUND := {zeros}\<rparr>", THEN conjunct2, THEN conjunct1, rule_format, OF h3,
      THEN conjunct2]
  note t2 = run_completion [OF h1 h2, of 3 example_lib "[]" blocked_loaded,
      THEN conjunct1, rule_format, OF h4 h5]
  show ?thesis
    by (rule conjI [OF h1 conjI [OF h2 conjI [OF h3 conjI [OF t1 conjI [OF h4 conjI [OF h5 t2]]]]]])
qed

end
